theory Spec2Isabelle
  imports Main "HOL-Library.Word"
begin

section \<open>Strings, runes and bytes\<close>

text \<open>
  The scanner of \<^verbatim>\<open>internal/scanner/scanner.go\<close> works on Go strings through the
  packages \<^verbatim>\<open>strings\<close>, \<^verbatim>\<open>unicode\<close> and \<^verbatim>\<open>strconv\<close>, which read a string
  rune by rune. A string is modelled here as the list of its runes, for texts whose
  code points lie in U+0000..U+00FF: a \<^typ>\<open>char\<close> is the code point (so
  \<^term>\<open>CHR 0xA9\<close> is the copyright sign). Where the program counts or inspects
  bytes (\<^verbatim>\<open>len(field)\<close>, the sample of \<^verbatim>\<open>isTextFile\<close>), the UTF-8 encoding of
  the runes is written out.
\<close>

type_synonym rune = char
type_synonym byte = "8 word"

definition utf8_rune :: "rune \<Rightarrow> byte list" where
  "utf8_rune r =
     (let n = (of_char r :: nat)
      in if n < 0x80 then [of_nat n] else [of_nat (0xC0 + n div 64), of_nat (0x80 + n mod 64)])"

definition utf8 :: "string \<Rightarrow> byte list" where
  "utf8 s = concat (map utf8_rune s)"

text \<open>Go's \<^verbatim>\<open>len(s)\<close>: the number of bytes of the string.\<close>

definition len :: "string \<Rightarrow> nat" where
  "len s = length (utf8 s)"

subsection \<open>Package unicode, on U+0000..U+00FF\<close>

definition IsSpace :: "rune \<Rightarrow> bool" where
  "IsSpace r = (of_char r \<in> {0x09, 0x0A, 0x0B, 0x0C, 0x0D, 0x20, 0x85, 0xA0 :: nat})"

text \<open>Categories P* (punctuation) and S* (symbols) of the Latin-1 property table.\<close>

definition IsPunct :: "rune \<Rightarrow> bool" where
  "IsPunct r = (of_char r \<in>
     {0x21, 0x22, 0x23, 0x25, 0x26, 0x27, 0x28, 0x29, 0x2A, 0x2C, 0x2D, 0x2E, 0x2F,
      0x3A, 0x3B, 0x3F, 0x40, 0x5B, 0x5C, 0x5D, 0x5F, 0x7B, 0x7D,
      0xA1, 0xA7, 0xAB, 0xB6, 0xB7, 0xBB, 0xBF :: nat})"

definition IsSymbol :: "rune \<Rightarrow> bool" where
  "IsSymbol r = (of_char r \<in>
     {0x24, 0x2B, 0x3C, 0x3D, 0x3E, 0x5E, 0x60, 0x7C, 0x7E,
      0xA2, 0xA3, 0xA4, 0xA5, 0xA6, 0xA8, 0xA9, 0xAC, 0xAE, 0xAF, 0xB0, 0xB1, 0xB4, 0xB8,
      0xD7, 0xF7 :: nat})"

text \<open>
  \<^verbatim>\<open>unicode.ToLower\<close>: A..Z, and the capital letters U+00C0..U+00DE of Latin-1
  except the multiplication sign U+00D7, move up by 32.
\<close>

definition unicode_ToLower :: "rune \<Rightarrow> rune" where
  "unicode_ToLower r =
     (let n = (of_char r :: nat)
      in if (0x41 \<le> n \<and> n \<le> 0x5A) \<or> (0xC0 \<le> n \<and> n \<le> 0xDE \<and> n \<noteq> 0xD7)
         then char_of (n + 32) else r)"

subsection \<open>Package strings\<close>

definition ToLower :: "string \<Rightarrow> string" where
  "ToLower s = map unicode_ToLower s"

definition TrimSpace :: "string \<Rightarrow> string" where
  "TrimSpace s = rev (dropWhile IsSpace (rev (dropWhile IsSpace s)))"

text \<open>
  \<^verbatim>\<open>HasPrefix\<close>, \<^verbatim>\<open>HasSuffix\<close> and \<^verbatim>\<open>Contains\<close> are those of package
  \<^verbatim>\<open>strings\<close> and, on byte slices, of package \<^verbatim>\<open>bytes\<close>.
\<close>

fun HasPrefix :: "'a list \<Rightarrow> 'a list \<Rightarrow> bool" where
  "HasPrefix s [] = True"
| "HasPrefix [] (p # ps) = False"
| "HasPrefix (c # cs) (p # ps) = (c = p \<and> HasPrefix cs ps)"

definition HasSuffix :: "'a list \<Rightarrow> 'a list \<Rightarrow> bool" where
  "HasSuffix s suffix = HasPrefix (rev s) (rev suffix)"

fun Contains :: "'a list \<Rightarrow> 'a list \<Rightarrow> bool" where
  "Contains [] substr = HasPrefix [] substr"
| "Contains (c # cs) substr = (HasPrefix (c # cs) substr \<or> Contains cs substr)"

text \<open>
  \<^verbatim>\<open>strings.ReplaceAll(s, old, new)\<close>: the occurrences of \<open>old\<close> that do not overlap,
  from the left. An empty \<open>old\<close> matches before every rune and at the end.
\<close>

function ReplaceAll :: "string \<Rightarrow> string \<Rightarrow> string \<Rightarrow> string" where
  "ReplaceAll s old new =
     (if old = [] then new @ concat (map (\<lambda>c. c # new) s)
      else if s = [] then []
      else if HasPrefix s old then new @ ReplaceAll (drop (length old) s) old new
      else hd s # ReplaceAll (tl s) old new)"
  by pat_completeness auto
termination
  by (relation "measure (\<lambda>(s, old, new). length s)") auto

declare ReplaceAll.simps [simp del]

text \<open>\<^verbatim>\<open>strings.Fields\<close>: the maximal runs of runes that are not white space.\<close>

function Fields :: "string \<Rightarrow> string list" where
  "Fields s =
     (let t = dropWhile IsSpace s
      in if t = [] then []
         else takeWhile (\<lambda>r. \<not> IsSpace r) t # Fields (dropWhile (\<lambda>r. \<not> IsSpace r) t))"
  by pat_completeness auto
termination
proof (relation "measure length")
  show "wf (measure length)" by simp
next
  fix s t :: string
  assume t: "t = dropWhile IsSpace s" and ne: "t \<noteq> []"
  from ne obtain c cs where tc: "t = c # cs" by (cases t) auto
  from ne have "\<not> IsSpace (hd t)"
    unfolding t by (rule hd_dropWhile)
  with tc have "dropWhile (\<lambda>r. \<not> IsSpace r) t = dropWhile (\<lambda>r. \<not> IsSpace r) cs"
    by simp
  moreover have "length (dropWhile (\<lambda>r. \<not> IsSpace r) cs) \<le> length cs"
    by (rule length_dropWhile_le)
  moreover have "length t \<le> length s"
    unfolding t by (rule length_dropWhile_le)
  ultimately show "(dropWhile (\<lambda>r. \<not> IsSpace r) t, s) \<in> measure length"
    using tc by simp
qed

declare Fields.simps [simp del]

fun Join :: "string list \<Rightarrow> string \<Rightarrow> string" where
  "Join [] sep = []"
| "Join [x] sep = x"
| "Join (x # y # ys) sep = x @ sep @ Join (y # ys) sep"

text \<open>
  \<^verbatim>\<open>strings.Split(s, sep)\<close>: the pieces between the occurrences of \<open>sep\<close>; \<open>cur\<close> is
  the piece being read. An empty \<open>sep\<close> splits after every rune.
\<close>

function SplitFrom :: "string \<Rightarrow> string \<Rightarrow> string \<Rightarrow> string list" where
  "SplitFrom cur s sep =
     (if s = [] then [cur]
      else if sep \<noteq> [] \<and> HasPrefix s sep then cur # SplitFrom [] (drop (length sep) s) sep
      else SplitFrom (cur @ [hd s]) (tl s) sep)"
  by pat_completeness auto
termination
  by (relation "measure (\<lambda>(cur, s, sep). length s)") auto

declare SplitFrom.simps [simp del]

definition Split :: "string \<Rightarrow> string \<Rightarrow> string list" where
  "Split s sep = (if sep = [] then map (\<lambda>c. [c]) s else SplitFrom [] s sep)"

subsection \<open>Package strconv\<close>

text \<open>
  \<^verbatim>\<open>strconv.Atoi\<close>: an optional sign and at least one decimal digit, nothing else;
  \<open>None\<close> is the error (of syntax, or of a value outside the 64-bit \<^verbatim>\<open>int\<close>).
\<close>

definition isDigit :: "rune \<Rightarrow> bool" where
  "isDigit ch = (0x30 \<le> (of_char ch :: nat) \<and> (of_char ch :: nat) \<le> 0x39)"

fun digitsValue :: "int \<Rightarrow> string \<Rightarrow> int" where
  "digitsValue n [] = n"
| "digitsValue n (ch # s) = digitsValue (n * 10 + (of_char ch - 0x30)) s"

definition Atoi :: "string \<Rightarrow> int option" where
  "Atoi s0 =
     (let s = (if s0 \<noteq> [] \<and> (hd s0 = CHR ''-'' \<or> hd s0 = CHR ''+'') then tl s0 else s0)
      in if s = [] \<or> \<not> list_all isDigit s then None
         else let n = digitsValue 0 s;
                  v = (if hd s0 = CHR ''-'' then - n else n)
              in if v < - (2 ^ 63) \<or> 2 ^ 63 - 1 < v then None else Some v)"

section \<open>normalizeForComparison\<close>

definition isCommonWord :: "string \<Rightarrow> bool" where
  "isCommonWord field =
     (field = ''copyright'' \<or> field = ''c'' \<or> field = ''by'' \<or>
      field = ''corp'' \<or> field = ''corporation'' \<or> field = ''inc'' \<or>
      field = ''affiliates'' \<or> field = ''all'' \<or> field = ''rights'' \<or>
      field = ''reserved'' \<or> field = ''and'' \<or> field = ''the'' \<or>
      field = ''team'' \<or> field = ''authors'' \<or> field = ''license'')"

text \<open>The 4-digit test: \<^verbatim>\<open>len(field) == 4\<close> and \<^verbatim>\<open>Atoi(field)\<close> without error.\<close>

definition isYear :: "string \<Rightarrow> bool" where
  "isYear field = (len field = 4 \<and> Atoi field \<noteq> None)"

text \<open>
  The nested conditions of the year-range test at index \<open>i\<close>. The difference
  \<^verbatim>\<open>year2-year1\<close> is a difference of 64-bit integers.
\<close>

definition isYearRange :: "string list \<Rightarrow> nat \<Rightarrow> bool" where
  "isYearRange fields i =
     (int i < int (length fields) - 2 \<and> len (fields ! i) = 4 \<and>
      (case Atoi (fields ! i) of
         None \<Rightarrow> False
       | Some year1 \<Rightarrow>
           (fields ! (i + 1) = ''-'' \<or> fields ! (i + 1) = ''to'') \<and>
           (case Atoi (fields ! (i + 2)) of
              None \<Rightarrow> False
            | Some year2 \<Rightarrow>
                year2 > year1 \<and>
                sint (word_of_int year2 - word_of_int year1 :: 64 word) \<le> 100)))"

text \<open>
  The loop \<^verbatim>\<open>for i := 0; i < len(fields); i++\<close>, with its three \<^verbatim>\<open>continue\<close>s
  in the order of the source; the third also skips two more tokens.
\<close>

function cleanFieldsLoop :: "string list \<Rightarrow> nat \<Rightarrow> string list \<Rightarrow> string list" where
  "cleanFieldsLoop fields i cleanFields =
     (if i < length fields then
        (if isCommonWord (fields ! i) then cleanFieldsLoop fields (i + 1) cleanFields
         else if isYear (fields ! i) then cleanFieldsLoop fields (i + 1) cleanFields
         else if isYearRange fields i then cleanFieldsLoop fields (i + 2 + 1) cleanFields
         else cleanFieldsLoop fields (i + 1) (cleanFields @ [fields ! i]))
      else cleanFields)"
  by pat_completeness auto
termination
  by (relation "measure (\<lambda>(fields, i, cleanFields). length fields - i)") auto

declare cleanFieldsLoop.simps [simp del]

definition normalizeForComparison :: "string \<Rightarrow> string" where
  "normalizeForComparison s =
     Join (cleanFieldsLoop
             (Fields (map (\<lambda>r. if IsPunct r \<or> IsSymbol r then CHR '' '' else unicode_ToLower r)
                          (ToLower s)))
             0 [])
          '' ''"

section \<open>cleanLine\<close>

definition prefixes :: "string list" where
  "prefixes = [''//'', ''/*'', ''*/'', ''#'', ''*'', ''+'', ''-'', ''<!--'', ''-->'']"

text \<open>One pass of the loop body: trim, replace every marker by a blank, collapse.\<close>

definition cleanPass :: "string \<Rightarrow> string" where
  "cleanPass original =
     Join (Fields (foldl (\<lambda>trimmed prefix. ReplaceAll trimmed prefix '' '')
                         (TrimSpace original) prefixes))
          '' ''"

text \<open>
  The loop of \<^verbatim>\<open>cleanLine\<close> runs until a pass changes nothing. It ends because each
  pass that changes the string lowers its mass: a rune weighs one, one more when it
  is a rune of a marker, one more when it is white space other than the blank.
\<close>

definition weight :: "rune \<Rightarrow> nat" where
  "weight r = 1 + (if r \<in> set ''/*#+-<!>'' then 1 else 0)
                + (if IsSpace r \<and> r \<noteq> CHR '' '' then 1 else 0)"

definition mass :: "string \<Rightarrow> nat" where
  "mass s = sum_list (map weight s)"

lemma mass_append: "mass (a @ b) = mass a + mass b"
  by (simp add: mass_def)

lemma mass_Cons: "mass (c # s) = weight c + mass s"
  by (simp add: mass_def)

lemma mass_Nil: "mass [] = 0"
  by (simp add: mass_def)

lemma mass_rev: "mass (rev s) = mass s"
  by (induction s) (simp_all add: mass_append mass_Cons mass_Nil)

lemma weight_pos: "0 < weight r"
  by (simp add: weight_def)

lemma mass_zero: "mass s = 0 \<longleftrightarrow> s = []"
  by (cases s) (simp_all add: mass_Cons mass_Nil weight_def)

lemma mass_dropWhile:
  "mass (dropWhile P s) \<le> mass s \<and> (mass (dropWhile P s) = mass s \<longrightarrow> dropWhile P s = s)"
proof (induction s)
  case Nil
  show ?case by simp
next
  case (Cons c s)
  show ?case
  proof (cases "P c")
    case True
    have "mass (dropWhile P s) < mass (c # s)"
      using Cons weight_pos [of c] by (simp add: mass_Cons)
    with True show ?thesis by simp
  next
    case False
    then show ?thesis by simp
  qed
qed

lemma mass_TrimSpace:
  "mass (TrimSpace s) \<le> mass s \<and> (mass (TrimSpace s) = mass s \<longrightarrow> TrimSpace s = s)"
proof -
  define a where "a = dropWhile IsSpace s"
  define b where "b = dropWhile IsSpace (rev a)"
  have ts: "TrimSpace s = rev b" by (simp add: TrimSpace_def a_def b_def)
  have a: "mass a \<le> mass s \<and> (mass a = mass s \<longrightarrow> a = s)"
    unfolding a_def by (rule mass_dropWhile)
  have b: "mass b \<le> mass a \<and> (mass b = mass a \<longrightarrow> b = rev a)"
    unfolding b_def using mass_dropWhile [of IsSpace "rev a"] by (simp add: mass_rev)
  show ?thesis
  proof
    show "mass (TrimSpace s) \<le> mass s" using a b by (simp add: ts mass_rev)
    show "mass (TrimSpace s) = mass s \<longrightarrow> TrimSpace s = s"
    proof
      assume "mass (TrimSpace s) = mass s"
      then have "mass b = mass s" by (simp add: ts mass_rev)
      with a b have "mass b = mass a" "mass a = mass s" by auto
      with a b have "b = rev a" "a = s" by auto
      then show "TrimSpace s = s" by (simp add: ts)
    qed
  qed
qed

lemma HasPrefix_drop: "HasPrefix s p \<Longrightarrow> s = p @ drop (length p) s"
  by (induction s p rule: HasPrefix.induct) simp_all

lemma mass_ReplaceAll:
  "mass new < mass old \<Longrightarrow>
   mass (ReplaceAll s old new) \<le> mass s \<and>
   (mass (ReplaceAll s old new) = mass s \<longrightarrow> ReplaceAll s old new = s)"
proof (induction s old new rule: ReplaceAll.induct)
  case (1 s old new)
  from "1.prems" have ne: "old \<noteq> []" by (auto simp: mass_Nil)
  show ?case
  proof (cases "s = []")
    case True
    with ne show ?thesis by (simp add: ReplaceAll.simps [of "[]"])
  next
    case False
    note sne = this
    show ?thesis
    proof (cases "HasPrefix s old")
      case True
      from "1.IH"(1) [OF ne sne True "1.prems"]
      have ih: "mass (ReplaceAll (drop (length old) s) old new) \<le> mass (drop (length old) s)"
        by simp
      have s: "mass s = mass old + mass (drop (length old) s)"
        using HasPrefix_drop [OF True] mass_append [of old "drop (length old) s"] by simp
      have r: "ReplaceAll s old new = new @ ReplaceAll (drop (length old) s) old new"
        using ne sne True by (simp add: ReplaceAll.simps [of s])
      have "mass (ReplaceAll s old new) < mass s"
        unfolding r s using ih "1.prems" by (simp add: mass_append)
      then show ?thesis by simp
    next
      case False
      from "1.IH"(2) [OF ne sne False "1.prems"]
      have ih: "mass (ReplaceAll (tl s) old new) \<le> mass (tl s) \<and>
        (mass (ReplaceAll (tl s) old new) = mass (tl s) \<longrightarrow> ReplaceAll (tl s) old new = tl s)" .
      have r: "ReplaceAll s old new = hd s # ReplaceAll (tl s) old new"
        using ne sne False by (simp add: ReplaceAll.simps [of s])
      from sne have s: "s = hd s # tl s" by simp
      have ms: "mass s = weight (hd s) + mass (tl s)"
        using s mass_Cons [of "hd s" "tl s"] by simp
      show ?thesis unfolding r using ih ms s by (auto simp: mass_Cons)
    qed
  qed
qed

lemma mass_prefixes:
  "list_all (\<lambda>p. mass '' '' < mass p) ps \<Longrightarrow>
   mass (foldl (\<lambda>trimmed prefix. ReplaceAll trimmed prefix '' '') s ps) \<le> mass s \<and>
   (mass (foldl (\<lambda>trimmed prefix. ReplaceAll trimmed prefix '' '') s ps) = mass s \<longrightarrow>
    foldl (\<lambda>trimmed prefix. ReplaceAll trimmed prefix '' '') s ps = s)"
proof (induction ps arbitrary: s)
  case Nil
  show ?case by simp
next
  case (Cons p ps)
  from Cons.prems have p: "mass '' '' < mass p" and ps: "list_all (\<lambda>p. mass '' '' < mass p) ps"
    by simp_all
  note a = mass_ReplaceAll [OF p, of s]
  note b = Cons.IH [OF ps, of "ReplaceAll s p '' ''"]
  show ?case using a b by (auto simp del: foldl_Cons simp add: foldl_Cons [of _ s])
qed

lemma Fields_IsSpace: "IsSpace c \<Longrightarrow> Fields (c # s) = Fields s"
  by (simp add: Fields.simps [of "c # s"] Fields.simps [of s])

lemma Fields_Nil: "Fields [] = []"
  by (simp add: Fields.simps)

lemma mass_Fields:
  "mass (Join (Fields s) '' '') \<le> mass s \<and>
   (mass (Join (Fields s) '' '') = mass s \<longrightarrow> Join (Fields s) '' '' = s)"
proof (induction "length s" arbitrary: s rule: less_induct)
  case less
  define ws where "ws = takeWhile IsSpace s"
  define t where "t = dropWhile IsSpace s"
  have s: "s = ws @ t" by (simp add: ws_def t_def)
  show ?case
  proof (cases "t = []")
    case True
    then have "Fields s = []" by (simp add: Fields.simps [of s] t_def)
    with True s show ?thesis by (auto simp: mass_Nil mass_zero)
  next
    case False
    define tok where "tok = takeWhile (\<lambda>r. \<not> IsSpace r) t"
    define r where "r = dropWhile (\<lambda>r. \<not> IsSpace r) t"
    have t: "t = tok @ r" by (simp add: tok_def r_def)
    have F: "Fields s = tok # Fields r"
      using False by (simp add: Fields.simps [of s] t_def [symmetric] tok_def r_def Let_def)
    have ms: "mass s = mass ws + mass tok + mass r"
      by (simp add: s t mass_append)
    show ?thesis
    proof (cases "Fields r = []")
      case True
      then have J: "Join (Fields s) '' '' = tok" by (simp add: F)
      show ?thesis unfolding J ms
        using s t by (auto simp: mass_zero)
    next
      case False
      then have rne: "r \<noteq> []" by (auto simp: Fields_Nil)
      then obtain sp r' where r': "r = sp # r'" by (cases r) auto
      have "\<not> \<not> IsSpace (hd r)"
        using rne unfolding r_def by (rule hd_dropWhile)
      with r' have sp: "IsSpace sp" by simp
      have Fr: "Fields r = Fields r'" by (simp add: r' Fields_IsSpace [OF sp])
      have "length r' < length s" by (simp add: s t r')
      from less [OF this]
      have ih: "mass (Join (Fields r') '' '') \<le> mass r' \<and>
        (mass (Join (Fields r') '' '') = mass r' \<longrightarrow> Join (Fields r') '' '' = r')" .
      from False obtain f fs where ffs: "Fields r = f # fs" by (cases "Fields r") auto
      have J: "Join (Fields s) '' '' = tok @ '' '' @ Join (Fields r') '' ''"
        using ffs by (simp add: F Fr [symmetric])
      have mr: "mass r = weight sp + mass r'" by (simp add: r' mass_Cons)
      have w1: "weight sp = 1 \<Longrightarrow> sp = CHR '' ''"
        using sp by (auto simp: weight_def split: if_splits)
      have mJ: "mass (Join (Fields s) '' '') = mass tok + 1 + mass (Join (Fields r') '' '')"
        by (simp add: J mass_append mass_Cons mass_Nil weight_def IsSpace_def)
      show ?thesis
      proof
        show "mass (Join (Fields s) '' '') \<le> mass s"
          unfolding mJ ms mr using ih weight_pos [of sp] by simp
        show "mass (Join (Fields s) '' '') = mass s \<longrightarrow> Join (Fields s) '' '' = s"
        proof
          assume "mass (Join (Fields s) '' '') = mass s"
          then have e: "mass tok + 1 + mass (Join (Fields r') '' '') = mass ws + mass tok + (weight sp + mass r')"
            unfolding mJ ms mr .
          with ih weight_pos [of sp] have "mass ws = 0" "weight sp = 1" "mass (Join (Fields r') '' '') = mass r'"
            by auto
          with ih w1 have "ws = []" "sp = CHR '' ''" "Join (Fields r') '' '' = r'"
            by (auto simp: mass_zero)
          then have "tok @ '' '' @ Join (Fields r') '' '' = ws @ tok @ sp # r'"
            by simp
          then show "Join (Fields s) '' '' = s"
            unfolding J using s t r' by simp
        qed
      qed
    qed
  qed
qed

lemma mass_cleanPass:
  "mass (cleanPass s) \<le> mass s \<and> (mass (cleanPass s) = mass s \<longrightarrow> cleanPass s = s)"
proof -
  define a where "a = TrimSpace s"
  define b where "b = foldl (\<lambda>trimmed prefix. ReplaceAll trimmed prefix '' '') a prefixes"
  have c: "cleanPass s = Join (Fields b) '' ''" by (simp add: cleanPass_def a_def b_def)
  have pre: "list_all (\<lambda>p. mass '' '' < mass p) prefixes"
    by (simp add: prefixes_def mass_def weight_def IsSpace_def)
  note A = mass_TrimSpace [of s, folded a_def]
  note B = mass_prefixes [OF pre, of a, folded b_def]
  note C = mass_Fields [of b]
  show ?thesis unfolding c using A B C by auto
qed

text \<open>
  \<^verbatim>\<open>for { original := trimmed; ...; if original == trimmed { break } }\<close>
\<close>

function cleanLoop :: "string \<Rightarrow> string" where
  "cleanLoop original =
     (let trimmed = cleanPass original
      in if original = trimmed then trimmed else cleanLoop trimmed)"
  by pat_completeness auto
termination
proof (relation "measure mass")
  show "wf (measure mass)" by simp
next
  fix original trimmed :: string
  assume "trimmed = cleanPass original" "original \<noteq> trimmed"
  then show "(trimmed, original) \<in> measure mass"
    using mass_cleanPass [of original] by auto
qed

declare cleanLoop.simps [simp del]

definition cleanLine :: "string \<Rightarrow> string" where
  "cleanLine line = cleanLoop line"

section \<open>Files as the scanner reads them\<close>

text \<open>
  A file either cannot be opened, or it is opened and delivers its content; what
  follows the content is the end of the file (\<^verbatim>\<open>io.EOF\<close>) or an I/O error. The value
  \<^verbatim>\<open>err\<close> of a read is \<^verbatim>\<open>nil\<close>, \<^verbatim>\<open>io.EOF\<close> or another error.
\<close>

datatype ending = AtEOF | Fault

datatype disk_file = Unopenable | File string ending

datatype read_err = NoError | EOF | Failed

datatype io_error = OpenError | ReadError | WalkError

definition endErr :: "ending \<Rightarrow> read_err" where
  "endErr fin = (case fin of AtEOF \<Rightarrow> EOF | Fault \<Rightarrow> Failed)"

section \<open>isTextFile\<close>

text \<open>
  \<^verbatim>\<open>buf := make([]byte, 512); n, err := file.Read(buf)\<close> on the fresh handle, giving
  \<^verbatim>\<open>buf[:n]\<close> and \<^verbatim>\<open>err\<close>.
\<close>

definition Read512 :: "string \<Rightarrow> ending \<Rightarrow> byte list \<times> read_err" where
  "Read512 content fin =
     (if utf8 content = [] then ([], endErr fin) else (take 512 (utf8 content), NoError))"

definition isAllowedControlChar :: "byte \<Rightarrow> bool" where
  "isAllowedControlChar b = (b = 0x0A \<or> b = 0x0D \<or> b = 0x09)"

text \<open>\<^verbatim>\<open>for _, b := range buf\<close> with its early \<^verbatim>\<open>return false\<close>.\<close>

fun controlLoop :: "byte list \<Rightarrow> bool" where
  "controlLoop [] = True"
| "controlLoop (b # buf) =
     (if b < 32 \<and> \<not> isAllowedControlChar b then False else controlLoop buf)"

definition isTextFile :: "disk_file \<Rightarrow> bool" where
  "isTextFile f =
     (case f of
        Unopenable \<Rightarrow> False
      | File content fin \<Rightarrow>
          (case Read512 content fin of
             (buf, err) \<Rightarrow>
               if err \<noteq> NoError \<and> err \<noteq> EOF then False
               else if Contains buf [0] then False
               else controlLoop buf))"

section \<open>extractCopyright\<close>

text \<open>
  The variables of the function: the builder \<^verbatim>\<open>copyright\<close>, the keys set to true
  in the map \<^verbatim>\<open>seenCopyrights\<close>, the builder \<^verbatim>\<open>currentCopyright\<close> and the flag.
\<close>

record extraction =
  copyright :: string
  seenCopyrights :: "string set"
  currentCopyright :: string
  isCollectingCopyright :: bool

text \<open>
  \<^verbatim>\<open>reader.ReadString('\n')\<close> on the content still to be read: the line with its
  delimiter, or at the end what is left together with the error.
\<close>

definition ReadString :: "string \<Rightarrow> ending \<Rightarrow> string \<times> read_err \<times> string" where
  "ReadString pending fin =
     (if CHR 0x0A \<in> set pending
      then (takeWhile (\<lambda>c. c \<noteq> CHR 0x0A) pending @ [CHR 0x0A], NoError,
            tl (dropWhile (\<lambda>c. c \<noteq> CHR 0x0A) pending))
      else (pending, endErr fin, []))"

definition isSuppressedLine :: "string \<Rightarrow> bool" where
  "isSuppressedLine lowercaseLine =
     (Contains lowercaseLine ''func '' \<or>
      Contains lowercaseLine ''type '' \<or>
      Contains lowercaseLine ''var '' \<or>
      Contains lowercaseLine ''const '' \<or>
      Contains lowercaseLine ''package '' \<or>
      Contains lowercaseLine ''import '' \<or>
      Contains lowercaseLine ''return '' \<or>
      Contains lowercaseLine '':='' \<or>
      Contains lowercaseLine ''if '' \<or>
      Contains lowercaseLine ''test'' \<or>
      Contains lowercaseLine ''echo'' \<or>
      Contains lowercaseLine ''find_'' \<or>
      Contains lowercaseLine ''append'' \<or>
      Contains lowercaseLine ''error:'' \<or>
      Contains lowercaseLine ''grep'' \<or>
      Contains lowercaseLine ''egrep'' \<or>
      Contains lowercaseLine ''while '' \<or>
      Contains lowercaseLine ''read '' \<or>
      Contains lowercaseLine ''|'' \<or>
      Contains lowercaseLine ''grant of'' \<or>
      Contains lowercaseLine ''license'' \<or>
      Contains lowercaseLine ''permission'' \<or>
      Contains lowercaseLine ''permitted'' \<or>
      Contains lowercaseLine ''distribute'' \<or>
      Contains lowercaseLine ''notice'' \<or>
      Contains lowercaseLine ''provided'' \<or>
      Contains lowercaseLine ''conditions'' \<or>
      Contains lowercaseLine ''subject to'' \<or>
      Contains lowercaseLine ''you may'' \<or>
      Contains lowercaseLine ''you must'' \<or>
      Contains lowercaseLine ''shall'' \<or>
      Contains lowercaseLine ''retain'' \<or>
      Contains lowercaseLine ''reproduce'')"

definition isExcludedLine :: "string \<Rightarrow> bool" where
  "isExcludedLine lowercaseLine =
     (Contains lowercaseLine ''copyrightadder'' \<or>
      Contains lowercaseLine ''copyrighttext'' \<or>
      Contains lowercaseLine ''addcopyright'' \<or>
      Contains lowercaseLine ''extractcopyright'' \<or>
      Contains lowercaseLine ''hascopyright'' \<or>
      Contains lowercaseLine ''copyright.sh'' \<or>
      Contains lowercaseLine ''copyright notice'' \<or>
      Contains lowercaseLine ''copyright owner'' \<or>
      Contains lowercaseLine ''copyright holder'' \<or>
      Contains lowercaseLine ''above copyright'' \<or>
      Contains lowercaseLine ''retain'' \<or>
      Contains lowercaseLine ''reproduce'')"

text \<open>The condition that starts or continues a notice; U+00A9 is the copyright sign.\<close>

definition isCopyrightLine :: "string \<Rightarrow> string \<Rightarrow> bool" where
  "isCopyrightLine trimmedLine lowercaseLine =
     ((Contains lowercaseLine ''copyright'' \<or>
       Contains lowercaseLine [CHR 0xA9] \<or>
       Contains lowercaseLine ''(c)'' \<or>
       Contains trimmedLine ''(C)'') \<and>
      \<not> isExcludedLine lowercaseLine)"

text \<open>
  The same condition without the test of the untouched line for \<^verbatim>\<open>(C)\<close>, to compare
  with \<^const>\<open>isCopyrightLine\<close>.
\<close>

definition isCopyrightLine_lowercaseOnly :: "string \<Rightarrow> bool" where
  "isCopyrightLine_lowercaseOnly lowercaseLine =
     ((Contains lowercaseLine ''copyright'' \<or>
       Contains lowercaseLine [CHR 0xA9] \<or>
       Contains lowercaseLine ''(c)'') \<and>
      \<not> isExcludedLine lowercaseLine)"

text \<open>
  The block the source repeats three times: clean the collected text, normalize it,
  and write it to \<^verbatim>\<open>copyright\<close> unless its key was seen.
\<close>

definition emitCopyright :: "extraction \<Rightarrow> extraction" where
  "emitCopyright st =
     (let cleanedCopyright = cleanLine (currentCopyright st);
          normalizedCopyright = normalizeForComparison cleanedCopyright
      in if normalizedCopyright \<notin> seenCopyrights st
         then st\<lparr>seenCopyrights := insert normalizedCopyright (seenCopyrights st),
                 copyright := copyright st @ cleanedCopyright @ [CHR 0x0A]\<rparr>
         else st)"

text \<open>What a blank line and a suppressed line do, up to the test for \<^verbatim>\<open>io.EOF\<close>.\<close>

definition flushCollected :: "extraction \<Rightarrow> extraction" where
  "flushCollected st =
     (if isCollectingCopyright st
      then (if currentCopyright st \<noteq> []
            then (emitCopyright st)\<lparr>currentCopyright := []\<rparr>
            else st)\<lparr>isCollectingCopyright := False\<rparr>
      else st)"

definition collectLine :: "extraction \<Rightarrow> string \<Rightarrow> string \<Rightarrow> extraction" where
  "collectLine st trimmedLine lowercaseLine =
     (if isCopyrightLine trimmedLine lowercaseLine
      then st\<lparr>isCollectingCopyright := True,
              currentCopyright := currentCopyright st @ trimmedLine\<rparr>
      else if isCollectingCopyright st
      then st\<lparr>currentCopyright := currentCopyright st @ '' '' @ trimmedLine\<rparr>
      else st)"

text \<open>
  The body of the loop for one line read; \<open>atEOF\<close> says that the read returned
  \<^verbatim>\<open>io.EOF\<close>, after which the loop breaks.
\<close>

definition processLine :: "extraction \<Rightarrow> string \<Rightarrow> bool \<Rightarrow> extraction" where
  "processLine st line atEOF =
     (let trimmedLine = TrimSpace line
      in if trimmedLine = [] then flushCollected st
         else let lowercaseLine = ToLower trimmedLine
              in if isSuppressedLine lowercaseLine then flushCollected st
                 else let st1 = collectLine st trimmedLine lowercaseLine
                      in if atEOF
                         then (if isCollectingCopyright st1 \<and> currentCopyright st1 \<noteq> []
                               then emitCopyright st1 else st1)
                         else st1)"

lemma ReadString_shorter:
  "ReadString pending fin = (line, NoError, rest) \<Longrightarrow> length rest < length pending"
proof -
  assume r: "ReadString pending fin = (line, NoError, rest)"
  have e: "endErr fin \<noteq> NoError" by (cases fin) (simp_all add: endErr_def)
  from r e have "rest = tl (dropWhile (\<lambda>c. c \<noteq> CHR 0x0A) pending)"
    and "CHR 0x0A \<in> set pending"
    by (auto simp: ReadString_def split: if_splits)
  moreover from this(2) have "dropWhile (\<lambda>c. c \<noteq> CHR 0x0A) pending \<noteq> []"
    by (simp add: dropWhile_eq_Nil_conv)
  moreover have "length (dropWhile (\<lambda>c. c \<noteq> CHR 0x0A) pending) \<le> length pending"
    by (rule length_dropWhile_le)
  ultimately show ?thesis
    by (cases "dropWhile (\<lambda>c. c \<noteq> CHR 0x0A) pending") auto
qed

function extractLoop :: "extraction \<Rightarrow> string \<Rightarrow> ending \<Rightarrow> io_error + string" where
  "extractLoop st pending fin =
     (case ReadString pending fin of
        (line, err, rest) \<Rightarrow>
          if err \<noteq> NoError \<and> err \<noteq> EOF then Inl ReadError
          else if err = EOF then Inr (copyright (processLine st line True))
          else extractLoop (processLine st line False) rest fin)"
  by pat_completeness auto
termination
proof (relation "measure (\<lambda>(st, pending, fin). length pending)")
  show "wf (measure (\<lambda>(st, pending, fin). length pending))" by simp
next
  fix st :: extraction and pending fin x line y err rest
  assume "(line, y) = ReadString pending fin" "(err, rest) = y"
    "\<not> (err \<noteq> NoError \<and> err \<noteq> EOF)" "err \<noteq> EOF"
  then have "ReadString pending fin = (line, NoError, rest)" by auto
  then show "((processLine st line False, rest, fin), (st, pending, fin))
    \<in> measure (\<lambda>(st, pending, fin). length pending)"
    by (simp add: ReadString_shorter)
qed

declare extractLoop.simps [simp del]

definition extractCopyright :: "disk_file \<Rightarrow> io_error + string" where
  "extractCopyright f =
     (case f of
        Unopenable \<Rightarrow> Inl OpenError
      | File content fin \<Rightarrow>
          extractLoop \<lparr>copyright = [], seenCopyrights = {}, currentCopyright = [],
                       isCollectingCopyright = False\<rparr> content fin)"

section \<open>ScanDirectory\<close>

text \<open>
  A directory as the function sees it: what \<^verbatim>\<open>os.ReadFile\<close> gives for a candidate
  name directly under it (\<open>None\<close> is an error), and the calls \<^verbatim>\<open>filepath.Walk\<close>
  makes to the walk function, in order: with an error, for a directory, or for a
  file, each with its path.
\<close>

datatype walk_entry = WalkFailure string | Directory string | Regular string disk_file

record directory =
  readFile :: "string \<Rightarrow> string option"
  walked :: "walk_entry list"

text \<open>
  The variables the walk function captures: the builder \<^verbatim>\<open>result\<close> and the keys of
  the map \<^verbatim>\<open>seenCopyrights\<close> of \<^verbatim>\<open>ScanDirectory\<close>; and what \<^verbatim>\<open>fmt.Printf\<close>
  wrote, one path and error for each message.
\<close>

record walk_state =
  result :: string
  seenInTree :: "string set"
  printed :: "(string \<times> io_error) list"

definition licenseFiles :: "string list" where
  "licenseFiles =
     [''LICENSE'', ''LICENSE.txt'', ''LICENSE.md'', ''license'', ''license.txt'', ''license.md'']"

fun readLicense :: "(string \<Rightarrow> string option) \<Rightarrow> string list \<Rightarrow> string" where
  "readLicense rd [] = []"
| "readLicense rd (licenseFile # rest) =
     (case rd licenseFile of Some content \<Rightarrow> content | None \<Rightarrow> readLicense rd rest)"

text \<open>\<^verbatim>\<open>for _, c := range copyrights\<close>\<close>

fun addCopyrights :: "walk_state \<Rightarrow> string list \<Rightarrow> walk_state" where
  "addCopyrights ws [] = ws"
| "addCopyrights ws (c # copyrights) =
     addCopyrights
       (if c \<noteq> [] \<and> c \<notin> seenInTree ws
        then ws\<lparr>seenInTree := insert c (seenInTree ws), result := result ws @ c @ [CHR 0x0A]\<rparr>
        else ws)
       copyrights"

text \<open>The walk function: the new state and the error it returns, if any.\<close>

fun walkFn :: "walk_state \<Rightarrow> walk_entry \<Rightarrow> walk_state \<times> io_error option" where
  "walkFn ws (WalkFailure path) = (ws, Some WalkError)"
| "walkFn ws (Directory path) = (ws, None)"
| "walkFn ws (Regular path f) =
     (if \<not> isTextFile f then (ws, None)
      else case extractCopyright f of
             Inl err \<Rightarrow> (ws\<lparr>printed := printed ws @ [(path, err)]\<rparr>, None)
           | Inr notices \<Rightarrow>
               (if notices \<noteq> [] then addCopyrights ws (Split notices [CHR 0x0A]) else ws,
                None))"

text \<open>\<^verbatim>\<open>filepath.Walk\<close> stops at the first error the walk function returns.\<close>

fun Walk :: "walk_state \<Rightarrow> walk_entry list \<Rightarrow> walk_state \<times> io_error option" where
  "Walk ws [] = (ws, None)"
| "Walk ws (e # es) =
     (case walkFn ws e of
        (ws', Some err) \<Rightarrow> (ws', Some err)
      | (ws', None) \<Rightarrow> Walk ws' es)"

definition licenseHeader :: string where
  "licenseHeader =
     [CHR 0x0A] @ ''License Text:'' @ [CHR 0x0A] @
     ''----------------------------------------'' @ [CHR 0x0A, CHR 0x0A]"

text \<open>What \<^verbatim>\<open>ScanDirectory\<close> printed and what it returned.\<close>

record scan_output =
  stdout :: "(string \<times> io_error) list"
  returned :: "io_error + string"

definition ScanDirectory :: "directory \<Rightarrow> scan_output" where
  "ScanDirectory dir =
     (let licenseContent = readLicense (readFile dir) licenseFiles
      in case Walk \<lparr>result = [], seenInTree = {}, printed = []\<rparr> (walked dir) of
           (ws, Some err) \<Rightarrow> \<lparr>stdout = printed ws, returned = Inl err\<rparr>
         | (ws, None) \<Rightarrow>
             \<lparr>stdout = printed ws,
              returned = Inr
                (if licenseContent \<noteq> []
                 then result ws @ licenseHeader @ licenseContent @
                      (if \<not> HasSuffix licenseContent [CHR 0x0A] then [CHR 0x0A] else [])
                 else result ws)\<rparr>)"

section \<open>Evaluation of the rune tables\<close>

text \<open>The same three tables as lists of runes, for evaluation.\<close>

lemma IsSpace_code [code]:
  "IsSpace r = (r \<in> set [CHR 0x09, CHR 0x0A, CHR 0x0B, CHR 0x0C, CHR 0x0D, CHR 0x20, CHR 0x85, CHR 0xA0])"
  by (simp add: IsSpace_def of_char_eq_iff [symmetric, where ?'a = nat])

lemma IsPunct_code [code]:
  "IsPunct r = (r \<in> set
     [CHR 0x21, CHR 0x22, CHR 0x23, CHR 0x25, CHR 0x26, CHR 0x27, CHR 0x28, CHR 0x29, CHR 0x2A,
      CHR 0x2C, CHR 0x2D, CHR 0x2E, CHR 0x2F, CHR 0x3A, CHR 0x3B, CHR 0x3F, CHR 0x40, CHR 0x5B,
      CHR 0x5C, CHR 0x5D, CHR 0x5F, CHR 0x7B, CHR 0x7D,
      CHR 0xA1, CHR 0xA7, CHR 0xAB, CHR 0xB6, CHR 0xB7, CHR 0xBB, CHR 0xBF])"
  by (simp add: IsPunct_def of_char_eq_iff [symmetric, where ?'a = nat])

lemma IsSymbol_code [code]:
  "IsSymbol r = (r \<in> set
     [CHR 0x24, CHR 0x2B, CHR 0x3C, CHR 0x3D, CHR 0x3E, CHR 0x5E, CHR 0x60, CHR 0x7C, CHR 0x7E,
      CHR 0xA2, CHR 0xA3, CHR 0xA4, CHR 0xA5, CHR 0xA6, CHR 0xA8, CHR 0xA9, CHR 0xAC, CHR 0xAE,
      CHR 0xAF, CHR 0xB0, CHR 0xB1, CHR 0xB4, CHR 0xB8, CHR 0xD7, CHR 0xF7])"
  by (simp add: IsSymbol_def of_char_eq_iff [symmetric, where ?'a = nat])

section \<open>Properties of normalizeForComparison\<close>

text \<open>
  The year-range test can only succeed on a token that the bare-year test has already
  dropped, so the loop is a filter of the tokens.
\<close>

lemma isYearRange_isYear: "isYearRange toks i \<Longrightarrow> isYear (toks ! i)"
  by (auto simp: isYearRange_def isYear_def split: option.splits)

lemma cleanFieldsLoop_filter:
  "cleanFieldsLoop toks i cleanFields =
   cleanFields @ filter (\<lambda>field. \<not> isCommonWord field \<and> \<not> isYear field) (drop i toks)"
proof (induction toks i cleanFields rule: cleanFieldsLoop.induct)
  case (1 toks i cleanFields)
  show ?case
  proof (cases "i < length toks")
    case False
    then show ?thesis by (simp add: cleanFieldsLoop.simps [of toks i])
  next
    case True
    then have d: "drop i toks = toks ! i # drop (i + 1) toks"
      by (simp add: Cons_nth_drop_Suc)
    have nr: "\<not> isYear (toks ! i) \<Longrightarrow> \<not> isYearRange toks i"
      using isYearRange_isYear by blast
    show ?thesis
      using True "1.IH"(1) "1.IH"(2) "1.IH"(4) nr
      by (simp add: cleanFieldsLoop.simps [of toks i] d)
  qed
qed

lemma Fields_tokens:
  "t \<in> set (Fields s) \<Longrightarrow> t \<noteq> [] \<and> list_all (\<lambda>c. \<not> IsSpace c) t \<and> set t \<subseteq> set s"
proof (induction s rule: Fields.induct)
  case (1 s)
  define u where "u = dropWhile IsSpace s"
  show ?case
  proof (cases "u = []")
    case True
    with "1.prems" show ?thesis by (simp add: Fields.simps [of s] u_def)
  next
    case False
    then have F: "Fields s = takeWhile (\<lambda>r. \<not> IsSpace r) u # Fields (dropWhile (\<lambda>r. \<not> IsSpace r) u)"
      by (simp add: Fields.simps [of s] u_def Let_def)
    have us: "set u \<subseteq> set s" unfolding u_def by (auto dest: set_dropWhileD)
    from False have "\<not> IsSpace (hd u)" unfolding u_def by (rule hd_dropWhile)
    with False have tne: "takeWhile (\<lambda>r. \<not> IsSpace r) u \<noteq> []" by (cases u) auto
    from "1.prems" F consider "t = takeWhile (\<lambda>r. \<not> IsSpace r) u"
      | "t \<in> set (Fields (dropWhile (\<lambda>r. \<not> IsSpace r) u))" by auto
    then show ?thesis
    proof cases
      case 1
      have "list_all (\<lambda>c. \<not> IsSpace c) (takeWhile (\<lambda>r. \<not> IsSpace r) u)"
        by (auto simp: list_all_iff dest: set_takeWhileD)
      moreover have "set (takeWhile (\<lambda>r. \<not> IsSpace r) u) \<subseteq> set s"
        using us by (auto dest: set_takeWhileD)
      ultimately show ?thesis using 1 tne by simp
    next
      case 2
      from "1.IH" [OF u_def False 2]
      have "t \<noteq> [] \<and> list_all (\<lambda>c. \<not> IsSpace c) t \<and> set t \<subseteq> set (dropWhile (\<lambda>r. \<not> IsSpace r) u)" .
      then show ?thesis using us by (auto dest: set_dropWhileD)
    qed
  qed
qed

lemma Fields_token_append:
  assumes "x \<noteq> []" and "list_all (\<lambda>c. \<not> IsSpace c) x" and "r = [] \<or> IsSpace (hd r)"
  shows "Fields (x @ r) = x # Fields r"
proof -
  from assms(1,2) have h: "\<not> IsSpace (hd x)" by (cases x) auto
  with assms(1) have d: "dropWhile IsSpace (x @ r) = x @ r" by (cases x) auto
  have a: "\<forall>c\<in>set x. \<not> IsSpace c" using assms(2) by (simp add: list_all_iff)
  have t: "takeWhile (\<lambda>r. \<not> IsSpace r) (x @ r) = x"
    using a assms(3) by (cases r) (auto simp: takeWhile_append2)
  have e: "dropWhile (\<lambda>r. \<not> IsSpace r) (x @ r) = r"
    using a assms(3) by (cases r) (auto simp: dropWhile_append2)
  show ?thesis
    using assms(1) by (simp add: Fields.simps [of "x @ r"] d t e Let_def)
qed

lemma Fields_Join:
  "list_all (\<lambda>t. t \<noteq> [] \<and> list_all (\<lambda>c. \<not> IsSpace c) t) ts \<Longrightarrow> Fields (Join ts '' '') = ts"
proof (induction ts "'' ''" rule: Join.induct)
  case 1
  show ?case by (simp add: Fields_Nil)
next
  case (2 x)
  then show ?case using Fields_token_append [of x "[]"] by (simp add: Fields_Nil)
next
  case (3 x y ys)
  have sp: "IsSpace (CHR '' '')" by (simp add: IsSpace_def)
  from 3 have "Fields (Join (y # ys) '' '') = y # ys" by simp
  moreover have "Fields (x @ '' '' @ Join (y # ys) '' '') = x # Fields ('' '' @ Join (y # ys) '' '')"
    using 3(2) sp by (intro Fields_token_append) simp_all
  ultimately show ?case using sp by (simp add: Fields_IsSpace)
qed

lemma set_Join: "set (Join ts sep) \<subseteq> (\<Union>t\<in>set ts. set t) \<union> set sep"
  by (induction ts sep rule: Join.induct) auto

lemma unicode_ToLower_idem: "unicode_ToLower (unicode_ToLower r) = unicode_ToLower r"
  by (auto simp: unicode_ToLower_def Let_def)

text \<open>
  Claim C2 says that a year range written with \<^verbatim>\<open>to\<close>, such as \<^verbatim>\<open>2019 to 2021\<close>,
  is dropped as one unit and leaves nothing in the key. In the loop the test for a
  bare year comes first and continues, so the range test is never reached with a
  4-digit number: the two years are dropped one by one and the separator stays.
  On the tokens of \<^verbatim>\<open>2019 to 2021\<close> the conditions of the range test hold at
  index 0, the loop nevertheless keeps \<^verbatim>\<open>to\<close>, and the key is \<^verbatim>\<open>to\<close>.
\<close>

theorem normalizeForComparison_range_keeps_separator:
  "isYearRange [''2019'', ''to'', ''2021''] 0 \<and>
   cleanFieldsLoop [''2019'', ''to'', ''2021''] 0 [] = [''to''] \<and>
   normalizeForComparison ''2019 to 2021'' = ''to''"
proof -
  have a: "isYearRange [''2019'', ''to'', ''2021''] 0" by code_simp
  have b: "cleanFieldsLoop [''2019'', ''to'', ''2021''] 0 [] = [''to'']" by code_simp
  have c: "normalizeForComparison ''2019 to 2021'' = ''to''" by code_simp
  show ?thesis using a b c by (simp only: simp_thms)
qed

text \<open>
  Claim C4: \<^verbatim>\<open>normalizeForComparison\<close> is idempotent. The key of a string is a
  list of tokens joined by single blanks; its runes are lower-case and neither
  punctuation nor symbols, so a second run reads the same tokens, and the filter
  keeps them all.
\<close>

theorem normalizeForComparison_idempotent:
  "normalizeForComparison (normalizeForComparison s) = normalizeForComparison s"
proof -
  define g where "g = (\<lambda>r. if IsPunct r \<or> IsSymbol r then CHR '' '' else unicode_ToLower r)"
  define keep where "keep = (\<lambda>field. \<not> isCommonWord field \<and> \<not> isYear field)"
  define m where "m = map g (ToLower s)"
  define ts where "ts = filter keep (Fields m)"
  have n: "normalizeForComparison x = Join (filter keep (Fields (map g (ToLower x)))) '' ''" for x
    by (simp add: normalizeForComparison_def cleanFieldsLoop_filter g_def keep_def)
  have k: "normalizeForComparison s = Join ts '' ''"
    by (simp add: n ts_def m_def)
  have tok: "t \<noteq> [] \<and> list_all (\<lambda>c. \<not> IsSpace c) t \<and> set t \<subseteq> set m" if "t \<in> set ts" for t
    using that Fields_tokens [of t m] by (simp add: ts_def)
  have sp: "IsSpace (CHR '' '')" by (simp add: IsSpace_def)
  have stable: "g (unicode_ToLower c) = c" if c: "c \<in> set m" and ns: "\<not> IsSpace c" for c
  proof -
    from c obtain x where x: "c = g (unicode_ToLower x)"
      by (auto simp: m_def ToLower_def)
    show ?thesis
    proof (cases "IsPunct (unicode_ToLower x) \<or> IsSymbol (unicode_ToLower x)")
      case True
      then have "c = CHR '' ''" by (simp add: x g_def)
      with ns sp show ?thesis by simp
    next
      case False
      then have c': "c = unicode_ToLower x"
        by (simp add: x g_def unicode_ToLower_idem)
      with False show ?thesis by (simp add: g_def unicode_ToLower_idem)
    qed
  qed
  have blank: "g (unicode_ToLower (CHR '' '')) = CHR '' ''"
    by (simp add: g_def unicode_ToLower_def IsPunct_def IsSymbol_def)
  have "g (unicode_ToLower c) = c" if "c \<in> set (Join ts '' '')" for c
  proof -
    from that set_Join [of ts "'' ''"] consider "c = CHR '' ''" | t where "t \<in> set ts" "c \<in> set t"
      by auto
    then show ?thesis
    proof cases
      case 1
      then show ?thesis by (simp add: blank)
    next
      case 2
      with tok [of t] have "c \<in> set m" "\<not> IsSpace c" by (auto simp: list_all_iff)
      then show ?thesis by (rule stable)
    qed
  qed
  then have same: "map g (ToLower (Join ts '' '')) = Join ts '' ''"
    by (simp add: ToLower_def map_idI)
  have "list_all (\<lambda>t. t \<noteq> [] \<and> list_all (\<lambda>c. \<not> IsSpace c) t) ts"
    using tok by (simp add: list_all_iff)
  then have F: "Fields (Join ts '' '') = ts" by (rule Fields_Join)
  have "filter keep ts = ts" by (simp add: ts_def)
  then show ?thesis by (simp add: k n [of "Join ts '' ''"] same F)
qed

section \<open>Properties of isTextFile\<close>

lemma Contains_single: "Contains buf [x] \<longleftrightarrow> x \<in> set buf"
  by (induction buf) auto

lemma controlLoop_iff:
  "controlLoop buf \<longleftrightarrow> list_all (\<lambda>b. \<not> (b < 32 \<and> \<not> isAllowedControlChar b)) buf"
  by (induction buf) auto

lemma utf8_Nil_iff: "utf8 content = [] \<longleftrightarrow> content = []"
  by (cases content) (auto simp: utf8_def utf8_rune_def Let_def)

lemma utf8_append: "utf8 (xs @ ys) = utf8 xs @ utf8 ys"
  by (simp add: utf8_def)

lemma utf8_replicate_ascii:
  "of_char c < (0x80 :: nat) \<Longrightarrow> utf8 (replicate n c) = replicate n (of_nat (of_char c))"
  by (induction n) (simp_all add: utf8_def utf8_rune_def)

text \<open>
  Claim C6: \<^verbatim>\<open>isTextFile\<close> looks at no more than the first 512 bytes, and it
  returns false exactly when the file cannot be opened, the first read fails with an
  error other than \<^verbatim>\<open>io.EOF\<close>, or the sample holds a zero byte or a byte below 32
  that is not newline, carriage return or tab. In particular a zero byte among the
  first 512 bytes makes it return false.
\<close>

theorem isTextFile_iff:
  "isTextFile f \<longleftrightarrow>
   (\<exists>content fin. f = File content fin \<and>
      \<not> (utf8 content = [] \<and> fin = Fault) \<and>
      (\<forall>b \<in> set (take 512 (utf8 content)).
         b \<noteq> 0 \<and> (b < 32 \<longrightarrow> b = 0x0A \<or> b = 0x0D \<or> b = 0x09)))"
proof (cases f)
  case Unopenable
  then show ?thesis by (simp add: isTextFile_def)
next
  case (File content fin)
  show ?thesis
  proof (cases "utf8 content = []")
    case True
    then show ?thesis
      using File by (cases fin) (simp_all add: isTextFile_def Read512_def endErr_def)
  next
    case False
    then show ?thesis
      using File
      by (auto simp: isTextFile_def Read512_def Contains_single controlLoop_iff
          isAllowedControlChar_def list_all_iff)
  qed
qed

text \<open>
  Instances: a zero byte in the sample; a tab, in a file whose later reads fail; a
  zero byte behind the first 512 bytes, which the function does not see.
\<close>

theorem isTextFile_iff_witness:
  "\<not> isTextFile (File [CHR ''a'', CHR 0x00, CHR ''b''] AtEOF) \<and>
   isTextFile (File [CHR ''a'', CHR 0x09, CHR ''b''] Fault) \<and>
   isTextFile (File (replicate 512 (CHR ''a'') @ [CHR 0x00]) AtEOF)"
proof -
  have u: "utf8 [CHR ''a'', CHR 0x00, CHR ''b''] = [0x61, 0, 0x62]" by code_simp
  have v: "utf8 [CHR ''a'', CHR 0x09, CHR ''b''] = [0x61, 0x09, 0x62]" by code_simp
  have a: "\<not> isTextFile (File [CHR ''a'', CHR 0x00, CHR ''b''] AtEOF)"
    using isTextFile_iff [of "File [CHR ''a'', CHR 0x00, CHR ''b''] AtEOF"] by (simp add: u)
  have b: "isTextFile (File [CHR ''a'', CHR 0x09, CHR ''b''] Fault)"
    using isTextFile_iff [of "File [CHR ''a'', CHR 0x09, CHR ''b''] Fault"] by (simp add: v)
  have w: "take 512 (utf8 (replicate 512 (CHR ''a'') @ [CHR 0x00])) = replicate 512 0x61"
    by (simp add: utf8_append utf8_replicate_ascii)
  have n: "utf8 (replicate 512 (CHR ''a'') @ [CHR 0x00]) \<noteq> []"
    by (simp add: utf8_Nil_iff)
  have c: "isTextFile (File (replicate 512 (CHR ''a'') @ [CHR 0x00]) AtEOF)"
    using isTextFile_iff [of "File (replicate 512 (CHR ''a'') @ [CHR 0x00]) AtEOF"] n
    by (simp add: w)
  show ?thesis using a b c by simp
qed

text \<open>
  Claim C9: for a file that can be opened and whose first read yields no byte and
  \<^verbatim>\<open>io.EOF\<close> (an empty file), \<^verbatim>\<open>isTextFile\<close> returns true; the walk function
  hands the file to \<^verbatim>\<open>extractCopyright\<close>, which returns the empty string without
  error, and the state of the walk is unchanged.
\<close>

theorem isTextFile_empty_file:
  "Read512 [] AtEOF = ([], EOF) \<and>
   isTextFile (File [] AtEOF) \<and>
   extractCopyright (File [] AtEOF) = Inr [] \<and>
   walkFn ws (Regular path (File [] AtEOF)) = (ws, None)"
proof -
  have r: "Read512 [] AtEOF = ([], EOF)" by code_simp
  have t: "isTextFile (File [] AtEOF)" by code_simp
  have e: "extractCopyright (File [] AtEOF) = Inr []" by code_simp
  show ?thesis using r t e by simp
qed

section \<open>Properties of extractCopyright\<close>

lemma HasPrefix_ToLower: "HasPrefix s p \<Longrightarrow> HasPrefix (ToLower s) (ToLower p)"
  by (induction s p rule: HasPrefix.induct) (simp_all add: ToLower_def)

lemma Contains_ToLower: "Contains s p \<Longrightarrow> Contains (ToLower s) (ToLower p)"
proof (induction s)
  case Nil
  then show ?case using HasPrefix_ToLower [of "[]" p] by (simp add: ToLower_def)
next
  case (Cons c cs)
  from Cons.prems have "HasPrefix (c # cs) p \<or> Contains cs p" by simp
  then show ?case
  proof
    assume "HasPrefix (c # cs) p"
    then have "HasPrefix (ToLower (c # cs)) (ToLower p)" by (rule HasPrefix_ToLower)
    then show ?thesis by (simp add: ToLower_def)
  next
    assume "Contains cs p"
    then have "Contains (ToLower cs) (ToLower p)" by (rule Cons.IH)
    then show ?thesis by (simp add: ToLower_def)
  qed
qed

text \<open>
  Claim C10: the test of the untouched line for \<^verbatim>\<open>(C)\<close> changes nothing. A line
  that contains \<^verbatim>\<open>(C)\<close> contains \<^verbatim>\<open>(c)\<close> once it is lowercased, so the condition
  of the source and the condition without that test accept the same lines.
\<close>

theorem isCopyrightLine_uppercase_test_redundant:
  "isCopyrightLine trimmedLine (ToLower trimmedLine) =
   isCopyrightLine_lowercaseOnly (ToLower trimmedLine)"
proof -
  have l: "ToLower ''(C)'' = ''(c)''" by code_simp
  have "Contains (ToLower trimmedLine) ''(c)''" if "Contains trimmedLine ''(C)''"
    using Contains_ToLower [OF that] by (simp only: l)
  then show ?thesis
    unfolding isCopyrightLine_def isCopyrightLine_lowercaseOnly_def by blast
qed

text \<open>
  Claim C5: a line that contains a suppression signal (after trimming, in lower case)
  is discarded. Whatever else the line contains, the state after it is the state
  after a flush: the function is no longer collecting, the line is not in
  \<^verbatim>\<open>currentCopyright\<close>, and \<^verbatim>\<open>copyright\<close> gained at most the notice collected
  before.
\<close>

theorem processLine_suppressed:
  assumes "isSuppressedLine (ToLower (TrimSpace line))"
  shows "processLine st line atEOF = flushCollected st \<and>
         \<not> isCollectingCopyright (processLine st line atEOF) \<and>
         currentCopyright (processLine st line atEOF) =
           (if isCollectingCopyright st then [] else currentCopyright st) \<and>
         copyright (processLine st line atEOF) =
           (if isCollectingCopyright st \<and> currentCopyright st \<noteq> []
            then copyright (emitCopyright st) else copyright st)"
proof -
  have p: "processLine st line atEOF = flushCollected st"
    using assms by (simp add: processLine_def Let_def)
  show ?thesis unfolding p by (simp add: flushCollected_def)
qed

text \<open>
  The line \<^verbatim>\<open>func Copyright() string {\<close> contains \<^verbatim>\<open>func \<close> and also satisfies
  the copyright condition; read while a notice is being collected, it ends the
  notice and is dropped, and a file that holds this line alone yields nothing.
\<close>

theorem processLine_suppressed_witness:
  "isSuppressedLine (ToLower (TrimSpace ''func Copyright() string {'')) \<and>
   isCopyrightLine (TrimSpace ''func Copyright() string {'')
     (ToLower (TrimSpace ''func Copyright() string {'')) \<and>
   processLine \<lparr>copyright = [], seenCopyrights = {}, currentCopyright = ''Copyright 2020 Acme'',
                 isCollectingCopyright = True\<rparr> ''func Copyright() string {'' False =
     \<lparr>copyright = ''Copyright 2020 Acme\<newline>'', seenCopyrights = {''acme''}, currentCopyright = [],
      isCollectingCopyright = False\<rparr> \<and>
   extractCopyright (File ''func Copyright() string {\<newline>'' AtEOF) = Inr []"
proof -
  have e: "extractCopyright (File ''func Copyright() string {\<newline>'' AtEOF) = Inr []"
    by code_simp
  have h: "isSuppressedLine (ToLower (TrimSpace ''func Copyright() string {''))" by code_simp
  have c: "isCopyrightLine (TrimSpace ''func Copyright() string {'')
     (ToLower (TrimSpace ''func Copyright() string {''))" by code_simp
  have f: "flushCollected \<lparr>copyright = [], seenCopyrights = {}, currentCopyright = ''Copyright 2020 Acme'',
                 isCollectingCopyright = True\<rparr> =
     \<lparr>copyright = ''Copyright 2020 Acme\<newline>'', seenCopyrights = {''acme''}, currentCopyright = [],
      isCollectingCopyright = False\<rparr>" by code_simp
  show ?thesis using processLine_suppressed [OF h] h c f e by simp
qed

text \<open>
  Claim C3 is about the file whose content is \<^verbatim>\<open>// Copyright 2019-2021\<close> followed
  by \<^verbatim>\<open>// Example Inc. All rights reserved.\<close>, read to the end of the file or to a
  blank line. The two lines are collected, joined by a blank and cleaned; since
  \<^verbatim>\<open>cleanLine\<close> replaces every \<^verbatim>\<open>-\<close> by a blank, wherever it stands, the notice is
  \<^verbatim>\<open>Copyright 2019 2021 Example Inc. All rights reserved.\<close>
\<close>

lemma two_line_notice_cleaned:
  "cleanLine ''// Copyright 2019-2021 // Example Inc. All rights reserved.'' =
     ''Copyright 2019 2021 Example Inc. All rights reserved.''"
  by code_simp

lemma two_line_notice_at_eof:
  "extractCopyright
     (File ''// Copyright 2019-2021\<newline>// Example Inc. All rights reserved.'' AtEOF) =
   Inr ''Copyright 2019 2021 Example Inc. All rights reserved.\<newline>''"
  by code_simp

lemma two_line_notice_newline_eof:
  "extractCopyright
     (File ''// Copyright 2019-2021\<newline>// Example Inc. All rights reserved.\<newline>'' AtEOF) =
   Inr ''Copyright 2019 2021 Example Inc. All rights reserved.\<newline>''"
  by code_simp

lemma two_line_notice_blank_line:
  "extractCopyright
     (File ''// Copyright 2019-2021\<newline>// Example Inc. All rights reserved.\<newline>\<newline>main'' AtEOF) =
   Inr ''Copyright 2019 2021 Example Inc. All rights reserved.\<newline>''"
  by code_simp

text \<open>
  Claim C3, amended: the pair is flushed as one notice, whose text is
  \<^verbatim>\<open>Copyright 2019 2021 Example Inc. All rights reserved.\<close>, when the file ends
  after the second line, with or without a newline, and when a blank line follows.
\<close>

theorem extractCopyright_two_line_notice:
  "cleanLine ''// Copyright 2019-2021 // Example Inc. All rights reserved.'' =
     ''Copyright 2019 2021 Example Inc. All rights reserved.'' \<and>
   extractCopyright
     (File ''// Copyright 2019-2021\<newline>// Example Inc. All rights reserved.'' AtEOF) =
     Inr ''Copyright 2019 2021 Example Inc. All rights reserved.\<newline>'' \<and>
   extractCopyright
     (File ''// Copyright 2019-2021\<newline>// Example Inc. All rights reserved.\<newline>'' AtEOF) =
     Inr ''Copyright 2019 2021 Example Inc. All rights reserved.\<newline>'' \<and>
   extractCopyright
     (File ''// Copyright 2019-2021\<newline>// Example Inc. All rights reserved.\<newline>\<newline>main'' AtEOF) =
     Inr ''Copyright 2019 2021 Example Inc. All rights reserved.\<newline>''"
  using two_line_notice_cleaned two_line_notice_at_eof two_line_notice_newline_eof
    two_line_notice_blank_line
  by (simp only: simp_thms)

text \<open>
  Claim C3 as stated fails: the notice of that file is not
  \<^verbatim>\<open>Copyright 2019-2021 Example Inc. All rights reserved.\<close>
\<close>

theorem extractCopyright_two_line_notice_counterexample:
  "extractCopyright
     (File ''// Copyright 2019-2021\<newline>// Example Inc. All rights reserved.\<newline>'' AtEOF) \<noteq>
   Inr ''Copyright 2019-2021 Example Inc. All rights reserved.\<newline>''"
  by (simp add: two_line_notice_newline_eof)

section \<open>Properties of ScanDirectory\<close>

text \<open>
  The report depends on the state of the walk only through \<^verbatim>\<open>result\<close> and
  \<^verbatim>\<open>seenCopyrights\<close>, not through what was printed.
\<close>

lemma addCopyrights_core:
  "result a = result b \<Longrightarrow> seenInTree a = seenInTree b \<Longrightarrow>
   result (addCopyrights a cs) = result (addCopyrights b cs) \<and>
   seenInTree (addCopyrights a cs) = seenInTree (addCopyrights b cs)"
proof (induction cs arbitrary: a b)
  case Nil
  then show ?case by simp
next
  case (Cons c cs)
  define a' where "a' = (if c \<noteq> [] \<and> c \<notin> seenInTree a
        then a\<lparr>seenInTree := insert c (seenInTree a), result := result a @ c @ [CHR 0x0A]\<rparr>
        else a)"
  define b' where "b' = (if c \<noteq> [] \<and> c \<notin> seenInTree b
        then b\<lparr>seenInTree := insert c (seenInTree b), result := result b @ c @ [CHR 0x0A]\<rparr>
        else b)"
  have r: "result a' = result b'" and s: "seenInTree a' = seenInTree b'"
    using Cons.prems by (simp_all add: a'_def b'_def)
  have "addCopyrights a (c # cs) = addCopyrights a' cs"
    and "addCopyrights b (c # cs) = addCopyrights b' cs"
    by (simp_all add: a'_def b'_def)
  with Cons.IH [OF r s] show ?case by simp
qed

lemma walkFn_core:
  assumes "result a = result b" and "seenInTree a = seenInTree b"
  shows "result (fst (walkFn a e)) = result (fst (walkFn b e)) \<and>
         seenInTree (fst (walkFn a e)) = seenInTree (fst (walkFn b e)) \<and>
         snd (walkFn a e) = snd (walkFn b e)"
proof (cases e)
  case (WalkFailure path)
  with assms show ?thesis by simp
next
  case (Directory path)
  with assms show ?thesis by simp
next
  case (Regular path f)
  show ?thesis
  proof (cases "isTextFile f")
    case False
    with Regular assms show ?thesis by simp
  next
    case True
    show ?thesis
    proof (cases "extractCopyright f")
      case (Inl err)
      with True Regular assms show ?thesis by simp
    next
      case (Inr notices)
      show ?thesis
      proof (cases "notices = []")
        case True
        with Inr \<open>isTextFile f\<close> Regular assms show ?thesis by simp
      next
        case False
        with Inr \<open>isTextFile f\<close> Regular
          addCopyrights_core [OF assms, of "Split notices [CHR 0x0A]"]
        show ?thesis by simp
      qed
    qed
  qed
qed

lemma Walk_core:
  "result a = result b \<Longrightarrow> seenInTree a = seenInTree b \<Longrightarrow>
   result (fst (Walk a es)) = result (fst (Walk b es)) \<and>
   seenInTree (fst (Walk a es)) = seenInTree (fst (Walk b es)) \<and>
   snd (Walk a es) = snd (Walk b es)"
proof (induction es arbitrary: a b)
  case Nil
  then show ?case by simp
next
  case (Cons e es)
  obtain a' ra where a: "walkFn a e = (a', ra)" by (cases "walkFn a e")
  obtain b' rb where b: "walkFn b e = (b', rb)" by (cases "walkFn b e")
  from walkFn_core [OF Cons.prems, of e] a b
  have c: "result a' = result b'" "seenInTree a' = seenInTree b'" "ra = rb" by simp_all
  show ?case
  proof (cases rb)
    case None
    with a b c Cons.IH [OF c(1) c(2)] show ?thesis by simp
  next
    case (Some err)
    with a b c show ?thesis by simp
  qed
qed

lemma Walk_append:
  "Walk ws (es1 @ es2) =
   (case Walk ws es1 of (ws', Some err) \<Rightarrow> (ws', Some err) | (ws', None) \<Rightarrow> Walk ws' es2)"
proof (induction es1 arbitrary: ws)
  case Nil
  show ?case by simp
next
  case (Cons e es1)
  obtain a r where a: "walkFn ws e = (a, r)" by (cases "walkFn ws e")
  show ?case
  proof (cases r)
    case None
    with a Cons.IH [of a] show ?thesis by (simp del: walkFn.simps)
  next
    case (Some err)
    with a show ?thesis by (simp del: walkFn.simps)
  qed
qed

lemma returned_cong:
  assumes "result (fst (Walk \<lparr>result = [], seenInTree = {}, printed = []\<rparr> es1)) =
           result (fst (Walk \<lparr>result = [], seenInTree = {}, printed = []\<rparr> es2))"
    and "snd (Walk \<lparr>result = [], seenInTree = {}, printed = []\<rparr> es1) =
         snd (Walk \<lparr>result = [], seenInTree = {}, printed = []\<rparr> es2)"
  shows "returned (ScanDirectory \<lparr>readFile = rd, walked = es1\<rparr>) =
         returned (ScanDirectory \<lparr>readFile = rd, walked = es2\<rparr>)"
proof -
  obtain a ra where a: "Walk \<lparr>result = [], seenInTree = {}, printed = []\<rparr> es1 = (a, ra)"
    by (cases "Walk \<lparr>result = [], seenInTree = {}, printed = []\<rparr> es1")
  obtain b rb where b: "Walk \<lparr>result = [], seenInTree = {}, printed = []\<rparr> es2 = (b, rb)"
    by (cases "Walk \<lparr>result = [], seenInTree = {}, printed = []\<rparr> es2")
  from assms a b have c: "result a = result b" "ra = rb" by simp_all
  show ?thesis
    using c by (cases rb) (simp_all add: ScanDirectory_def a b Let_def)
qed

lemma Walk_append_same:
  assumes "\<And>s. result (fst (Walk s es1)) = result (fst (Walk s es2)) \<and>
                snd (Walk s es1) = snd (Walk s es2)"
  shows "result (fst (Walk ws (before @ es1))) = result (fst (Walk ws (before @ es2))) \<and>
         snd (Walk ws (before @ es1)) = snd (Walk ws (before @ es2))"
proof -
  obtain m r where m: "Walk ws before = (m, r)" by (cases "Walk ws before")
  show ?thesis
  proof (cases r)
    case None
    with m assms [of m] show ?thesis by (simp add: Walk_append)
  next
    case (Some err)
    with m show ?thesis by (simp add: Walk_append)
  qed
qed

text \<open>
  Claim C7: when \<^verbatim>\<open>extractCopyright\<close> returns an error for a file of the walk, the
  walk function prints the path and the error, changes nothing else and returns no
  error; the report is the one of the walk in which that file yields the empty
  string, and the one of the walk without that file.
\<close>

theorem ScanDirectory_extraction_error:
  assumes "isTextFile f" and "extractCopyright f = Inl err"
    and "isTextFile f'" and "extractCopyright f' = Inr []"
  shows "walkFn ws (Regular path f) = (ws\<lparr>printed := printed ws @ [(path, err)]\<rparr>, None) \<and>
         returned (ScanDirectory \<lparr>readFile = rd, walked = before @ Regular path f # after\<rparr>) =
         returned (ScanDirectory \<lparr>readFile = rd, walked = before @ Regular path f' # after\<rparr>) \<and>
         returned (ScanDirectory \<lparr>readFile = rd, walked = before @ Regular path f # after\<rparr>) =
         returned (ScanDirectory \<lparr>readFile = rd, walked = before @ after\<rparr>)"
proof -
  have w: "walkFn s (Regular path f) = (s\<lparr>printed := printed s @ [(path, err)]\<rparr>, None)" for s
    using assms(1,2) by simp
  have w': "walkFn s (Regular path f') = (s, None)" for s
    using assms(3,4) by simp
  have W: "Walk s (Regular path f # after) = Walk (s\<lparr>printed := printed s @ [(path, err)]\<rparr>) after" for s
    by (simp add: w del: walkFn.simps)
  have W': "Walk s (Regular path f' # after) = Walk s after" for s
    by (simp add: w' del: walkFn.simps)
  have eq2: "result (fst (Walk s (Regular path f # after))) = result (fst (Walk s after)) \<and>
       snd (Walk s (Regular path f # after)) = snd (Walk s after)" for s
    unfolding W using Walk_core [of "s\<lparr>printed := printed s @ [(path, err)]\<rparr>" s after]
    by simp
  have eq1: "result (fst (Walk s (Regular path f # after))) =
       result (fst (Walk s (Regular path f' # after))) \<and>
       snd (Walk s (Regular path f # after)) = snd (Walk s (Regular path f' # after))" for s
    using eq2 [of s] unfolding W' by simp
  have r1: "returned (ScanDirectory \<lparr>readFile = rd, walked = before @ Regular path f # after\<rparr>) =
        returned (ScanDirectory \<lparr>readFile = rd, walked = before @ Regular path f' # after\<rparr>)"
    using Walk_append_same [of "Regular path f # after" "Regular path f' # after", OF eq1]
    by (intro returned_cong) blast+
  have r2: "returned (ScanDirectory \<lparr>readFile = rd, walked = before @ Regular path f # after\<rparr>) =
        returned (ScanDirectory \<lparr>readFile = rd, walked = before @ after\<rparr>)"
    using Walk_append_same [of "Regular path f # after" after, OF eq2]
    by (intro returned_cong) blast+
  from w [of ws] r1 r2 show ?thesis by (simp only: simp_thms)
qed

text \<open>
  A file whose first read succeeds and whose later read fails, between two files with
  a notice each.
\<close>

theorem ScanDirectory_extraction_error_witness:
  "isTextFile (File ''Copyright 2020 Acme\<newline>'' Fault) \<and>
   extractCopyright (File ''Copyright 2020 Acme\<newline>'' Fault) = Inl ReadError \<and>
   walkFn \<lparr>result = [], seenInTree = {}, printed = []\<rparr>
     (Regular ''b'' (File ''Copyright 2020 Acme\<newline>'' Fault)) =
     (\<lparr>result = [], seenInTree = {}, printed = [(''b'', ReadError)]\<rparr>, None) \<and>
   returned (ScanDirectory \<lparr>readFile = Map.empty, walked =
     [Regular ''a'' (File ''(c) Foo\<newline>'' AtEOF),
      Regular ''b'' (File ''Copyright 2020 Acme\<newline>'' Fault),
      Regular ''c'' (File ''(c) Bar\<newline>'' AtEOF)]\<rparr>) =
     Inr ''(c) Foo\<newline>(c) Bar\<newline>''"
proof -
  have h1: "isTextFile (File ''Copyright 2020 Acme\<newline>'' Fault)" by code_simp
  have h2: "extractCopyright (File ''Copyright 2020 Acme\<newline>'' Fault) = Inl ReadError"
    by code_simp
  have h3: "isTextFile (File [] AtEOF)" by code_simp
  have h4: "extractCopyright (File [] AtEOF) = Inr []" by code_simp
  have r: "returned (ScanDirectory \<lparr>readFile = Map.empty, walked =
     [Regular ''a'' (File ''(c) Foo\<newline>'' AtEOF)] @
     [Regular ''c'' (File ''(c) Bar\<newline>'' AtEOF)]\<rparr>) =
     Inr ''(c) Foo\<newline>(c) Bar\<newline>''"
    by code_simp
  note t = ScanDirectory_extraction_error [OF h1 h2 h3 h4,
      of "\<lparr>result = [], seenInTree = {}, printed = []\<rparr>" "''b''" Map.empty
         "[Regular ''a'' (File ''(c) Foo\<newline>'' AtEOF)]"
         "[Regular ''c'' (File ''(c) Bar\<newline>'' AtEOF)]"]
  from t [THEN conjunct1] have w: "walkFn \<lparr>result = [], seenInTree = {}, printed = []\<rparr>
     (Regular ''b'' (File ''Copyright 2020 Acme\<newline>'' Fault)) =
     (\<lparr>result = [], seenInTree = {}, printed = [(''b'', ReadError)]\<rparr>, None)"
    by (simp del: walkFn.simps)
  from t [THEN conjunct2, THEN conjunct2] r have e: "returned (ScanDirectory \<lparr>readFile = Map.empty, walked =
     [Regular ''a'' (File ''(c) Foo\<newline>'' AtEOF)] @
      Regular ''b'' (File ''Copyright 2020 Acme\<newline>'' Fault) #
     [Regular ''c'' (File ''(c) Bar\<newline>'' AtEOF)]\<rparr>) =
     Inr ''(c) Foo\<newline>(c) Bar\<newline>''"
    by simp
  from h1 h2 w e show ?thesis by (simp del: walkFn.simps)
qed

lemma readLicense_first:
  "i < length names \<Longrightarrow> rd (names ! i) = Some content \<Longrightarrow>
   (\<forall>j<i. rd (names ! j) = None) \<Longrightarrow> readLicense rd names = content"
proof (induction names arbitrary: i)
  case Nil
  then show ?case by simp
next
  case (Cons name names)
  show ?case
  proof (cases i)
    case 0
    with Cons.prems show ?thesis by simp
  next
    case (Suc k)
    with Cons.prems have "rd name = None" by auto
    moreover from Suc Cons.prems have "readLicense rd names = content"
      by (intro Cons.IH [of k]) auto
    ultimately show ?thesis by simp
  qed
qed

lemma HasPrefix_append: "HasPrefix x p \<Longrightarrow> HasPrefix (x @ y) p"
  by (induction x p rule: HasPrefix.induct) simp_all

lemma HasSuffix_append: "HasSuffix b s \<Longrightarrow> HasSuffix (a @ b) s"
  by (simp add: HasSuffix_def HasPrefix_append)

text \<open>
  Claim C8, amended: when the first candidate name that can be read has a content
  that is not empty, and the walk returns no error, the report is the notices, the
  separator header, the content of the license file as it is, and a newline unless
  the content ends with one; so the report ends with a newline.
\<close>

theorem ScanDirectory_license:
  assumes "i < length licenseFiles"
    and "readFile dir (licenseFiles ! i) = Some licenseContent"
    and "\<forall>j<i. readFile dir (licenseFiles ! j) = None"
    and "licenseContent \<noteq> []"
    and "snd (Walk \<lparr>result = [], seenInTree = {}, printed = []\<rparr> (walked dir)) = None"
  shows "returned (ScanDirectory dir) =
           Inr (result (fst (Walk \<lparr>result = [], seenInTree = {}, printed = []\<rparr> (walked dir))) @
                licenseHeader @ licenseContent @
                (if HasSuffix licenseContent [CHR 0x0A] then [] else [CHR 0x0A])) \<and>
         (case returned (ScanDirectory dir) of
            Inl err \<Rightarrow> False
          | Inr report \<Rightarrow> HasSuffix report [CHR 0x0A])"
proof -
  let ?w = "Walk \<lparr>result = [], seenInTree = {}, printed = []\<rparr> (walked dir)"
  have l: "readLicense (readFile dir) licenseFiles = licenseContent"
    using assms(1-3) by (rule readLicense_first)
  obtain ws r where w: "?w = (ws, r)" by (cases ?w)
  with assms(5) have r: "r = None" by simp
  have a: "returned (ScanDirectory dir) =
           Inr (result ws @ licenseHeader @ licenseContent @
                (if HasSuffix licenseContent [CHR 0x0A] then [] else [CHR 0x0A]))"
    using assms(4) by (simp add: ScanDirectory_def l w r)
  have "HasSuffix (licenseContent @ (if HasSuffix licenseContent [CHR 0x0A] then [] else [CHR 0x0A]))
          [CHR 0x0A]"
    by (simp add: HasSuffix_def)
  then have "HasSuffix (result ws @ licenseHeader @ licenseContent @
                (if HasSuffix licenseContent [CHR 0x0A] then [] else [CHR 0x0A])) [CHR 0x0A]"
    using HasSuffix_append [of _ "[CHR 0x0A]" "result ws @ licenseHeader"] by simp
  with a show ?thesis by (simp add: w)
qed

text \<open>
  A directory with \<^verbatim>\<open>LICENSE.txt\<close> but no \<^verbatim>\<open>LICENSE\<close>, whose content has no final
  newline.
\<close>

theorem ScanDirectory_license_witness:
  "returned (ScanDirectory
     \<lparr>readFile = Map.empty(''LICENSE.txt'' \<mapsto> ''MIT License...''),
      walked = [Directory ''src'', Regular ''src/main.go'' (File ''// Copyright 2024 Acme\<newline>'' AtEOF)]\<rparr>) =
   Inr (''Copyright 2024 Acme'' @ [CHR 0x0A] @ licenseHeader @ ''MIT License...'' @ [CHR 0x0A])"
proof -
  let ?dir = "\<lparr>readFile = Map.empty(''LICENSE.txt'' \<mapsto> ''MIT License...''),
      walked = [Directory ''src'', Regular ''src/main.go'' (File ''// Copyright 2024 Acme\<newline>'' AtEOF)]\<rparr>"
  have w: "Walk \<lparr>result = [], seenInTree = {}, printed = []\<rparr> (walked ?dir) =
    (\<lparr>result = ''Copyright 2024 Acme\<newline>'', seenInTree = {''Copyright 2024 Acme''}, printed = []\<rparr>, None)"
    by code_simp
  have s: "\<not> HasSuffix ''MIT License...'' [CHR 0x0A]" by code_simp
  have h1: "(1::nat) < length licenseFiles" by (simp add: licenseFiles_def)
  have h2: "readFile ?dir (licenseFiles ! 1) = Some ''MIT License...''"
    by (simp add: licenseFiles_def)
  have h3: "\<forall>j<1. readFile ?dir (licenseFiles ! j) = None"
    by (simp add: licenseFiles_def)
  have h4: "''MIT License...'' \<noteq> []" by simp
  have h5: "snd (Walk \<lparr>result = [], seenInTree = {}, printed = []\<rparr> (walked ?dir)) = None"
    by (simp only: w snd_conv)
  from ScanDirectory_license [OF h1 h2 h3 h4 h5, THEN conjunct1] s
  show ?thesis by (simp only: w fst_conv if_False walk_state.simps append.simps)
qed

text \<open>
  Claim C8 as stated fails for a license file that can be read and is empty:
  \<^verbatim>\<open>licenseContent != ""\<close> is false, no section is appended, and the report of a
  directory with nothing else is the empty string.
\<close>

theorem ScanDirectory_empty_license_counterexample:
  "readFile \<lparr>readFile = Map.empty(''LICENSE'' \<mapsto> []), walked = []\<rparr> ''LICENSE'' = Some [] \<and>
   ScanDirectory \<lparr>readFile = Map.empty(''LICENSE'' \<mapsto> []), walked = []\<rparr> =
     \<lparr>stdout = [], returned = Inr []\<rparr> \<and>
   \<not> HasSuffix ([] :: string) [CHR 0x0A]"
proof -
  have "ScanDirectory \<lparr>readFile = Map.empty(''LICENSE'' \<mapsto> []), walked = []\<rparr> =
     \<lparr>stdout = [], returned = Inr []\<rparr>"
    by code_simp
  then show ?thesis by (simp add: HasSuffix_def)
qed

text \<open>
  Claim C1 says that no two notices of a report have the same normalized key. The
  walk function tests \<^verbatim>\<open>seenCopyrights[c]\<close> on the notice as written, not on its
  key, so two files whose notices differ in case and punctuation both reach the
  report, with equal keys.
\<close>

theorem ScanDirectory_raw_text_deduplication:
  "ScanDirectory
     \<lparr>readFile = Map.empty,
      walked = [Regular ''a.txt'' (File ''Copyright (c) 2020 Acme Corp.\<newline>'' AtEOF),
                Regular ''b.txt'' (File ''copyright 2020 ACME CORP\<newline>'' AtEOF)]\<rparr> =
     \<lparr>stdout = [],
      returned = Inr ''Copyright (c) 2020 Acme Corp.\<newline>copyright 2020 ACME CORP\<newline>''\<rparr> \<and>
   normalizeForComparison ''Copyright (c) 2020 Acme Corp.'' =
   normalizeForComparison ''copyright 2020 ACME CORP''"
proof -
  have a: "ScanDirectory
     \<lparr>readFile = Map.empty,
      walked = [Regular ''a.txt'' (File ''Copyright (c) 2020 Acme Corp.\<newline>'' AtEOF),
                Regular ''b.txt'' (File ''copyright 2020 ACME CORP\<newline>'' AtEOF)]\<rparr> =
     \<lparr>stdout = [],
      returned = Inr ''Copyright (c) 2020 Acme Corp.\<newline>copyright 2020 ACME CORP\<newline>''\<rparr>"
    by code_simp
  have b: "normalizeForComparison ''Copyright (c) 2020 Acme Corp.'' = ''acme''" by code_simp
  have c: "normalizeForComparison ''copyright 2020 ACME CORP'' = ''acme''" by code_simp
  show ?thesis using a b c by (simp only: simp_thms)
qed

end
